theory Spec2Isabelle
  imports Complex_Main "HOL-Library.Multiset" "HOL-Library.Log_Nat"
begin

section \<open>Science Jeopardy: the quiz workflow of \<^verbatim>\<open>science_jeopardy.py\<close>\<close>

text \<open>
  The program is a Streamlit script. Its state lives in \<^verbatim>\<open>st.session_state\<close>; its
  inputs are the question file, the random generator, the wall clock and the widget
  values. Each of them is an explicit argument of the model. A Python float (a time
  stamp, the percentage) is modelled by the rational number it denotes; the rounding of
  float arithmetic is not modelled.
\<close>

subsection \<open>Configuration\<close>

definition TEST_DURATION_MINUTES :: nat where
  "TEST_DURATION_MINUTES = 30"

definition QUESTIONS_PER_TEST :: nat where
  "QUESTIONS_PER_TEST = 30"

definition QUESTION_FILE :: string where
  "QUESTION_FILE = ''questions.json''"

subsection \<open>Decoded JSON values and Python exceptions\<close>

text \<open>
  What \<^verbatim>\<open>json.load\<close> returns: \<^verbatim>\<open>None\<close>, a bool, a number (an int or a finite float, by
  its value), a string, a list, or a dict (its items in insertion order, the keys
  distinct). A question is such a value: the loader checks nothing below the top level.
\<close>

datatype json =
    JNull
  | JBool bool
  | JNum rat
  | JStr string
  | JArr "json list"
  | JObj "(string \<times> json) list"

datatype py_exception =
    FileNotFoundError
  | JSONDecodeError
  | OSError
  | KeyError
  | TypeError
  | ValueError
  | ZeroDivisionError
  | AttributeError
  | UnicodeDecodeError
  | StreamlitAPIException

text \<open>
  A run of a piece of the script: it finishes with a value, it raises, or (only where
  the random generator is consulted in a rejection loop) the finite supply of random
  draws handed to the model is used up before the loop has finished.
\<close>

datatype 'a outcome = Done 'a | Raise py_exception | Starved

text \<open>\<^verbatim>\<open>q[key]\<close> with a string key: only a dict can be subscripted so.\<close>

fun getitem :: "json \<Rightarrow> string \<Rightarrow> py_exception + json" where
  "getitem (JObj kvs) k = (case map_of kvs k of None \<Rightarrow> Inl KeyError | Some v \<Rightarrow> Inr v)"
| "getitem _ k = Inl TypeError"

text \<open>\<^verbatim>\<open>q.get(key, default)\<close>.\<close>

fun get_default :: "json \<Rightarrow> string \<Rightarrow> json \<Rightarrow> py_exception + json" where
  "get_default (JObj kvs) k d = (case map_of kvs k of None \<Rightarrow> Inr d | Some v \<Rightarrow> Inr v)"
| "get_default _ k d = Inl AttributeError"

text \<open>
  Python's \<^verbatim>\<open>==\<close> on decoded values: \<^verbatim>\<open>None\<close> equals only \<^verbatim>\<open>None\<close>; a bool is the
  number 0 or 1; numbers compare by value; strings by content; lists element by element;
  dicts by their items, whatever the order.
\<close>

fun py_eq :: "json \<Rightarrow> json \<Rightarrow> bool" where
  "py_eq JNull JNull = True"
| "py_eq (JBool a) (JBool b) = (a = b)"
| "py_eq (JBool a) (JNum y) = (of_bool a = y)"
| "py_eq (JNum x) (JBool b) = (x = of_bool b)"
| "py_eq (JNum x) (JNum y) = (x = y)"
| "py_eq (JStr s) (JStr t) = (s = t)"
| "py_eq (JArr xs) (JArr ys) = list_all2 py_eq xs ys"
| "py_eq (JObj a) (JObj b) =
     (length a = length b \<and>
      list_all (\<lambda>kv. case map_of b (fst kv) of None \<Rightarrow> False | Some w \<Rightarrow> py_eq (snd kv) w) a)"
| "py_eq _ _ = False"

subsection \<open>The question repository\<close>

text \<open>
  The body of the \<^verbatim>\<open>try\<close> block, \<^verbatim>\<open>open\<close> followed by \<^verbatim>\<open>json.load\<close>, either raises or
  yields the decoded value. \<^verbatim>\<open>open\<close> raises \<^verbatim>\<open>FileNotFoundError\<close> when the file is
  absent, \<^verbatim>\<open>json.load\<close> raises \<^verbatim>\<open>JSONDecodeError\<close> when the text is not a JSON document.
  A file that is there and cannot be read makes them raise something else: \<^verbatim>\<open>open\<close> an
  \<^verbatim>\<open>OSError\<close> such as \<^verbatim>\<open>PermissionError\<close>, the read inside \<^verbatim>\<open>json.load\<close> a
  \<^verbatim>\<open>UnicodeDecodeError\<close> when the bytes are not text in the default encoding.
\<close>

datatype read_outcome = Raised py_exception | Loaded json

definition format_incorrect_msg :: string where
  "format_incorrect_msg = ''JSON file format is incorrect. Expected a list of questions.''"

definition not_found_msg :: string where
  "not_found_msg =
     ''File '' @ [CHR 0x27] @ QUESTION_FILE @ [CHR 0x27] @
     '' not found! Please make sure it is in the same folder.''"

definition decode_error_msg :: string where
  "decode_error_msg =
     ''Error decoding '' @ [CHR 0x27] @ QUESTION_FILE @ [CHR 0x27] @
     ''. Please check the file syntax.''"

text \<open>
  \<^verbatim>\<open>load_questions_from_file\<close>: the result is the list of messages passed to
  \<^verbatim>\<open>st.error\<close> and the list returned. An exception that no \<^verbatim>\<open>except\<close> clause names
  leaves the function.
\<close>

fun load_questions_from_file :: "read_outcome \<Rightarrow> py_exception + (string list \<times> json list)" where
  "load_questions_from_file (Loaded (JArr data)) = Inr ([], data)"
| "load_questions_from_file (Loaded _) = Inr ([format_incorrect_msg], [])"
| "load_questions_from_file (Raised FileNotFoundError) = Inr ([not_found_msg], [])"
| "load_questions_from_file (Raised JSONDecodeError) = Inr ([decode_error_msg], [])"
| "load_questions_from_file (Raised e) = Inl e"

subsection \<open>\<^verbatim>\<open>random.sample\<close>\<close>

text \<open>
  The library routine behind \<^verbatim>\<open>random.sample(bank, count)\<close>, as CPython implements it.
  The generator is a finite list of draws; \<^verbatim>\<open>randbelow(m)\<close> takes the next draw, reduced
  modulo \<open>m\<close>. With \<open>n\<close> the size of the population:
  \<^verbatim>\<open>
    if not 0 <= k <= n: raise ValueError
    setsize = 21
    if k > 5: setsize += 4 ** _ceil(_log(k * 3, 4))
    if n <= setsize:
        pool = list(population)
        for i in range(k):
            j = randbelow(n - i)
            result[i] = pool[j]
            pool[j] = pool[n - i - 1]
    else:
        selected = set()
        for i in range(k):
            j = randbelow(n)
            while j in selected: j = randbelow(n)
            selected.add(j)
            result[i] = population[j]
  \<close>
\<close>

definition setsize :: "nat \<Rightarrow> nat" where
  "setsize k = 21 + (if 5 < k then 4 ^ floorlog 4 (k * 3 - 1) else 0)"

text \<open>
  The pool loop, with \<open>m = n - i\<close> the live length of the pool and \<open>r = k - i\<close> the
  number of picks still to make.
\<close>

fun sample_pool :: "nat list \<Rightarrow> 'a list \<Rightarrow> nat \<Rightarrow> nat \<Rightarrow> 'a list option" where
  "sample_pool ds pool m 0 = Some []"
| "sample_pool [] pool m (Suc r) = None"
| "sample_pool (d # ds) pool m (Suc r) =
     (let j = d mod m in
      map_option ((#) (pool ! j)) (sample_pool ds (pool[j := pool ! (m - 1)]) (m - 1) r))"

text \<open>
  The loop over a set of chosen indices; a draw that hits a chosen index is thrown away
  and the next one is taken, for as long as it takes.
\<close>

fun sample_set :: "nat list \<Rightarrow> 'a list \<Rightarrow> nat set \<Rightarrow> nat \<Rightarrow> 'a list option" where
  "sample_set ds population selected 0 = Some []"
| "sample_set [] population selected (Suc r) = None"
| "sample_set (d # ds) population selected (Suc r) =
     (let j = d mod length population in
      if j \<in> selected then sample_set ds population selected (Suc r)
      else map_option ((#) (population ! j))
             (sample_set ds population (insert j selected) r))"

definition sample :: "nat list \<Rightarrow> 'a list \<Rightarrow> nat \<Rightarrow> 'a list outcome" where
  "sample ds population k =
     (let n = length population in
      if \<not> k \<le> n then Raise ValueError
      else case (if n \<le> setsize k then sample_pool ds population n k
                 else sample_set ds population {} k) of
             None \<Rightarrow> Starved
           | Some result \<Rightarrow> Done result)"

subsection \<open>Session state\<close>

text \<open>
  \<^verbatim>\<open>st.session_state\<close>: each of the three keys may be missing (\<open>None\<close>); the value stored
  under \<^verbatim>\<open>start_time\<close> is \<^verbatim>\<open>None\<close> or a time stamp. \<open>widgets i\<close> is the value under the key
  \<^verbatim>\<open>q_i\<close> of the radio group of question \<open>i\<close>.
\<close>

record session_state =
  exam_started :: "bool option"
  selected_questions :: "json list option"
  start_time :: "rat option option"
  widgets :: "nat \<rightharpoonup> json"

definition initialize_session :: "session_state \<Rightarrow> session_state" where
  "initialize_session s =
     s\<lparr>exam_started := (case exam_started s of None \<Rightarrow> Some False | Some b \<Rightarrow> Some b),
       selected_questions := (case selected_questions s of None \<Rightarrow> Some [] | Some qs \<Rightarrow> Some qs),
       start_time := (case start_time s of None \<Rightarrow> Some None | Some t \<Rightarrow> Some t)\<rparr>"

text \<open>
  \<^verbatim>\<open>start_test\<close>, given what reading the file does, the random draws and the clock. The
  result is the messages shown and the state left behind.
\<close>

definition start_test ::
  "read_outcome \<Rightarrow> nat list \<Rightarrow> rat \<Rightarrow> session_state \<Rightarrow> (string list \<times> session_state) outcome" where
  "start_test src ds now s =
     (case load_questions_from_file src of
        Inl e \<Rightarrow> Raise e
      | Inr (msgs, bank) \<Rightarrow>
          if bank = [] then Done (msgs, s)
          else
            let count = min QUESTIONS_PER_TEST (length bank) in
            case sample ds bank count of
              Raise e \<Rightarrow> Raise e
            | Starved \<Rightarrow> Starved
            | Done chosen \<Rightarrow>
                Done (msgs, s\<lparr>selected_questions := Some chosen,
                               start_time := Some (Some now),
                               exam_started := Some True\<rparr>))"

subsection \<open>Grading a submitted form\<close>

text \<open>
  What the submit branch of \<^verbatim>\<open>main\<close> shows: the late banner, one expander per question,
  the two metrics and one closing message (\<^verbatim>\<open>st.success\<close>, \<^verbatim>\<open>st.warning\<close> or
  \<^verbatim>\<open>st.error\<close>; the leading emoji of the texts is left out).
\<close>

datatype message = Success string | Warning string | Error string

record question_result =
  is_correct :: bool
  user_val :: json
  correct_val :: json
  question_text :: json
  topic_caption :: "json option"

record grade_report =
  is_late :: bool
  results :: "question_result list"
  raw_score :: nat
  total_questions :: nat
  final_score_pct :: rat
  tier_message :: message

text \<open>\<^verbatim>\<open>st.session_state.get(f"q_{i}")\<close>: \<^verbatim>\<open>None\<close> when nothing is stored or selected.\<close>

definition session_get :: "(nat \<rightharpoonup> json) \<Rightarrow> nat \<Rightarrow> json" where
  "session_get w i = (case w i of None \<Rightarrow> JNull | Some v \<Rightarrow> v)"

text \<open>
  The loop \<^verbatim>\<open>for i, q in enumerate(selected_questions)\<close> of the grading logic, with the
  running \<^verbatim>\<open>score\<close> and the expanders written so far.
\<close>

fun grade_loop ::
  "(nat \<rightharpoonup> json) \<Rightarrow> nat \<Rightarrow> json list \<Rightarrow> nat \<Rightarrow> question_result list \<Rightarrow>
     py_exception + (nat \<times> question_result list)" where
  "grade_loop w i [] score out = Inr (score, out)"
| "grade_loop w i (q # qs) score out =
     (let user = session_get w i in
      case getitem q ''answer'' of
        Inl e \<Rightarrow> Inl e
      | Inr correct \<Rightarrow>
          let ok = py_eq user correct in
          case getitem q ''question'' of
            Inl e \<Rightarrow> Inl e
          | Inr text \<Rightarrow>
              (case (if ok then Inr None
                     else map_sum id Some (get_default q ''topic'' (JStr ''General''))) of
                 Inl e \<Rightarrow> Inl e
               | Inr caption \<Rightarrow>
                   grade_loop w (Suc i) qs (if ok then score + 1 else score)
                     (out @ [\<lparr>is_correct = ok, user_val = user, correct_val = correct,
                              question_text = text, topic_caption = caption\<rparr>])))"

definition excellent_work :: message where
  "excellent_work = Success ''**Excellent work!** You are ready for the Science Olympiad!''"

definition good_effort :: message where
  "good_effort = Warning ''**Good effort!** Review the topics you missed and try again.''"

definition keep_practicing :: message where
  "keep_practicing = Error ''**Keep practicing.** You need a bit more study time.''"

definition tier :: "nat \<Rightarrow> message" where
  "tier score =
     (if score \<ge> 25 then excellent_work
      else if score \<ge> 15 then good_effort
      else keep_practicing)"

text \<open>The body of \<^verbatim>\<open>if submitted:\<close>.\<close>

definition grade :: "bool \<Rightarrow> json list \<Rightarrow> (nat \<rightharpoonup> json) \<Rightarrow> py_exception + grade_report" where
  "grade late qs w =
     (case grade_loop w 0 qs 0 [] of
        Inl e \<Rightarrow> Inl e
      | Inr (score, out) \<Rightarrow>
          if length qs = 0 then Inl ZeroDivisionError
          else Inr \<lparr>is_late = late, results = out, raw_score = score,
                    total_questions = length qs,
                    final_score_pct = (of_nat score / of_nat (length qs)) * 100,
                    tier_message = tier score\<rparr>)"

text \<open>
  The loop that draws the form (lines 130 to 139), run by \<^verbatim>\<open>main\<close> before the submit
  button is looked at: for each question the prompt \<^verbatim>\<open>q['question']\<close> is formatted and
  \<^verbatim>\<open>st.radio\<close> is called with \<^verbatim>\<open>q['options']\<close> under the key \<^verbatim>\<open>q_i\<close>. What the library does
  with the options is a parameter: \<open>st_radio opts i\<close> holds when it draws the group and
  fails when it refuses them, raising its own exception.
\<close>

fun form_loop :: "(json \<Rightarrow> nat \<Rightarrow> bool) \<Rightarrow> nat \<Rightarrow> json list \<Rightarrow> py_exception + unit" where
  "form_loop st_radio i [] = Inr ()"
| "form_loop st_radio i (q # qs) =
     (case getitem q ''question'' of
        Inl e \<Rightarrow> Inl e
      | Inr prompt \<Rightarrow>
          (case getitem q ''options'' of
             Inl e \<Rightarrow> Inl e
           | Inr opts \<Rightarrow>
               if st_radio opts i then form_loop st_radio (Suc i) qs
               else Inl StreamlitAPIException))"

text \<open>
  A run of \<^verbatim>\<open>main\<close> in which the form was submitted, at clock time \<open>now\<close>: the state is
  initialised, and under \<^verbatim>\<open>exam_started\<close> the lateness is computed, the form is drawn and
  the submission graded. The result is \<open>None\<close> when the welcome page is shown.
\<close>

definition main_submitted ::
  "(json \<Rightarrow> nat \<Rightarrow> bool) \<Rightarrow> rat \<Rightarrow> session_state \<Rightarrow> py_exception + grade_report option" where
  "main_submitted st_radio now s0 =
     (let s = initialize_session s0 in
      case exam_started s of
        None \<Rightarrow> Inl AttributeError
      | Some False \<Rightarrow> Inr None
      | Some True \<Rightarrow>
          (case start_time s of
             Some (Some t) \<Rightarrow>
               let elapsed = now - t;
                   late = (elapsed > of_nat (TEST_DURATION_MINUTES * 60))
               in (case selected_questions s of
                     None \<Rightarrow> Inl AttributeError
                   | Some qs \<Rightarrow>
                       (case form_loop st_radio 0 qs of
                          Inl e \<Rightarrow> Inl e
                        | Inr drawn \<Rightarrow> map_sum id Some (grade late qs (widgets s))))
           | _ \<Rightarrow> Inl TypeError))"

text \<open>
  The states a session can be in: the empty state of a fresh session, and whatever
  \<^verbatim>\<open>initialize_session\<close>, \<^verbatim>\<open>start_test\<close> and the user's clicks on the radio groups make of
  a state already reached.
\<close>

definition fresh_session :: session_state where
  "fresh_session =
     \<lparr>exam_started = None, selected_questions = None, start_time = None, widgets = Map.empty\<rparr>"

inductive reachable :: "session_state \<Rightarrow> bool" where
  fresh: "reachable fresh_session"
| init: "reachable s \<Longrightarrow> reachable (initialize_session s)"
| start: "reachable s \<Longrightarrow> start_test src ds now s = Done (msgs, s') \<Longrightarrow> reachable s'"
| click: "reachable s \<Longrightarrow> reachable (s\<lparr>widgets := w\<rparr>)"

subsection \<open>Predicates used in the statements\<close>

text \<open>\<^verbatim>\<open>isinstance(data, list)\<close>.\<close>

definition isinstance_list :: "json \<Rightarrow> bool" where
  "isinstance_list data = (case data of JArr _ \<Rightarrow> True | _ \<Rightarrow> False)"

text \<open>
  A record on which the grading loop raises nothing: a dict with the two keys the loop
  subscripts, \<^verbatim>\<open>answer\<close> and \<^verbatim>\<open>question\<close>.
\<close>

definition answerable :: "json \<Rightarrow> bool" where
  "answerable q =
     (case q of
        JObj kvs \<Rightarrow> map_of kvs ''answer'' \<noteq> None \<and> map_of kvs ''question'' \<noteq> None
      | _ \<Rightarrow> False)"

section \<open>Sampling\<close>

text \<open>
  One step of the pool loop removes exactly the picked entry from the live part of the
  pool.
\<close>

lemma take_pool_step:
  assumes "j < m" "m \<le> length pool"
  shows "add_mset (pool ! j) (mset (take (m - 1) (pool[j := pool ! (m - 1)]))) = mset (take m pool)"
proof -
  from assms obtain m' where m: "m = Suc m'" by (cases m) auto
  with assms have tk: "take m pool = take m' pool @ [pool ! m']"
    by (simp add: take_Suc_conv_app_nth)
  show ?thesis
  proof (cases "j = m'")
    case True
    then show ?thesis using tk m by simp
  next
    case False
    with assms m have jl: "j < m'" by simp
    with assms m have "j < length (take m' pool)" by simp
    moreover have "take m' (pool[j := pool ! m']) = (take m' pool)[j := pool ! m']"
      by (simp add: take_update_swap)
    moreover have "pool ! j \<in># mset (take m' pool)"
    proof -
      have "(take m' pool) ! j \<in> set (take m' pool)"
        using jl assms m by (intro nth_mem) simp
      then show ?thesis using jl by simp
    qed
    ultimately show ?thesis using tk m jl
      by (simp add: mset_update)
  qed
qed

lemma sample_pool_mset:
  "r \<le> m \<Longrightarrow> m \<le> length pool \<Longrightarrow> sample_pool ds pool m r = Some res \<Longrightarrow>
     mset res \<subseteq># mset (take m pool) \<and> length res = r"
proof (induction ds pool m r arbitrary: res rule: sample_pool.induct)
  case (1 ds pool m)
  then show ?case by simp
next
  case (2 pool m r)
  then show ?case by simp
next
  case (3 d ds pool m r)
  let ?j = "d mod m"
  from "3.prems" have mpos: "0 < m" by simp
  then have jm: "?j < m" by simp
  from "3.prems" obtain rest where
    rest: "sample_pool ds (pool[?j := pool ! (m - 1)]) (m - 1) r = Some rest"
    and res: "res = pool ! ?j # rest"
    by (auto simp: Let_def)
  have "mset rest \<subseteq># mset (take (m - 1) (pool[?j := pool ! (m - 1)])) \<and> length rest = r"
    using "3.IH"[OF refl _ _ rest] "3.prems" by simp
  then show ?case
    using take_pool_step[OF jm "3.prems"(2)] res
    by (metis length_Cons mset.simps(2) mset_subset_eq_add_mset_cancel)
qed

lemma sample_pool_map:
  "r \<le> m \<Longrightarrow> m \<le> length pool \<Longrightarrow>
     sample_pool ds (map f pool) m r = map_option (map f) (sample_pool ds pool m r)"
proof (induction ds pool m r rule: sample_pool.induct)
  case (3 d ds pool m r)
  let ?j = "d mod m"
  from "3.prems" have jm: "?j < m" by simp
  with "3.prems" have "?j < length pool" "m - 1 < length pool" by linarith+
  then have a: "map f pool ! ?j = f (pool ! ?j)" "map f pool ! (m - 1) = f (pool ! (m - 1))"
    by simp_all
  have "sample_pool ds (map f (pool[?j := pool ! (m - 1)])) (m - 1) r =
        map_option (map f) (sample_pool ds (pool[?j := pool ! (m - 1)]) (m - 1) r)"
    using "3.IH"[OF refl] "3.prems" by simp
  then show ?case using a
    by (simp add: Let_def map_update option.map_comp comp_def)
qed simp_all

lemma sample_pool_total: "r \<le> length ds \<Longrightarrow> sample_pool ds pool m r \<noteq> None"
  by (induction ds pool m r rule: sample_pool.induct) (simp_all add: Let_def)

lemma distinct_of_mset_le: "mset xs \<subseteq># mset ys \<Longrightarrow> distinct ys \<Longrightarrow> distinct xs"
proof -
  assume sub: "mset xs \<subseteq># mset ys" and d: "distinct ys"
  have "count (mset xs) a = (if a \<in> set xs then 1 else 0)" for a
  proof (cases "a \<in> set xs")
    case True
    then have "1 \<le> count (mset xs) a" by (simp add: Suc_le_eq)
    moreover have "count (mset xs) a \<le> count (mset ys) a"
      using sub by (rule mset_subset_eq_count)
    moreover have "count (mset ys) a \<le> 1"
      using d by (simp add: distinct_count_atmost_1)
    ultimately have "count (mset xs) a = 1" by linarith
    then show ?thesis using True by simp
  next
    case False
    then show ?thesis by (simp add: count_mset_0_iff)
  qed
  then show "distinct xs" by (simp add: distinct_count_atmost_1)
qed

lemma distinct_mset_le: "distinct xs \<Longrightarrow> set xs \<subseteq> set ys \<Longrightarrow> mset xs \<subseteq># mset ys"
proof (rule mset_subset_eqI)
  fix a
  assume d: "distinct xs" and sub: "set xs \<subseteq> set ys"
  show "count (mset xs) a \<le> count (mset ys) a"
  proof (cases "a \<in> set xs")
    case True
    with d have "count (mset xs) a = 1" by (simp add: distinct_count_atmost_1)
    moreover from True sub have "a \<in># mset ys" by auto
    then have "1 \<le> count (mset ys) a" by (simp add: Suc_le_eq)
    ultimately show ?thesis by simp
  next
    case False
    then have "count (mset xs) a = 0" by (simp add: count_mset_0_iff)
    then show ?thesis by linarith
  qed
qed

lemma map_nth_mset_le:
  assumes "distinct idxs" "\<forall>i\<in>set idxs. i < length xs"
  shows "mset (map ((!) xs) idxs) \<subseteq># mset xs"
proof -
  from assms have "mset idxs \<subseteq># mset [0..<length xs]"
    by (intro distinct_mset_le) auto
  then have "image_mset ((!) xs) (mset idxs) \<subseteq># image_mset ((!) xs) (mset [0..<length xs])"
    by (rule image_mset_subseteq_mono)
  moreover have "image_mset ((!) xs) (mset [0..<length xs]) = mset (map ((!) xs) [0..<length xs])"
    by (simp only: mset_map)
  ultimately show ?thesis by (simp only: mset_map map_nth)
qed

lemma sample_pool_indices:
  assumes "k \<le> length xs" "sample_pool ds xs (length xs) k = Some res"
  shows "\<exists>idxs. distinct idxs \<and> (\<forall>i\<in>set idxs. i < length xs) \<and> length idxs = k \<and>
           res = map ((!) xs) idxs"
proof -
  let ?n = "length xs"
  have "sample_pool ds (map ((!) xs) [0..<?n]) ?n k =
        map_option (map ((!) xs)) (sample_pool ds [0..<?n] ?n k)"
    using assms(1) by (intro sample_pool_map) simp_all
  with assms(2) obtain idxs where
    idxs: "sample_pool ds [0..<?n] ?n k = Some idxs" and res: "res = map ((!) xs) idxs"
    by (cases "sample_pool ds [0..<?n] ?n k") (auto simp: map_nth)
  from sample_pool_mset[OF _ _ idxs] assms(1)
  have sub: "mset idxs \<subseteq># mset [0..<?n]" and len: "length idxs = k" by simp_all
  from sub have "distinct idxs" by (rule distinct_of_mset_le) simp
  moreover from sub have "set idxs \<subseteq> set [0..<?n]"
    by (metis set_mset_mono set_mset_mset)
  ultimately show ?thesis using len res by (intro exI[of _ idxs]) auto
qed

lemma sample_set_indices:
  "0 < length xs \<Longrightarrow> sample_set ds xs sel r = Some res \<Longrightarrow>
     \<exists>idxs. distinct idxs \<and> (\<forall>i\<in>set idxs. i < length xs \<and> i \<notin> sel) \<and> length idxs = r \<and>
       res = map ((!) xs) idxs"
proof (induction ds xs sel r arbitrary: res rule: sample_set.induct)
  case (1 ds xs sel)
  then show ?case by simp
next
  case (2 xs sel r)
  then show ?case by simp
next
  case (3 d ds xs sel r)
  let ?j = "d mod length xs"
  show ?case
  proof (cases "?j \<in> sel")
    case True
    with "3.prems" have "sample_set ds xs sel (Suc r) = Some res" by simp
    from "3.IH"(1)[OF refl True "3.prems"(1) this] show ?thesis .
  next
    case False
    with "3.prems" obtain rest where
      rest: "sample_set ds xs (insert ?j sel) r = Some rest" and res: "res = xs ! ?j # rest"
      by (auto simp: Let_def)
    from "3.IH"(2)[OF refl False "3.prems"(1) rest] obtain idxs where
      idxs: "distinct idxs" "\<forall>i\<in>set idxs. i < length xs \<and> i \<notin> insert ?j sel"
        "length idxs = r" "rest = map ((!) xs) idxs"
      by blast
    have "?j < length xs" using "3.prems"(1) by simp
    with idxs False res have
      "distinct (?j # idxs) \<and> (\<forall>i\<in>set (?j # idxs). i < length xs \<and> i \<notin> sel) \<and>
       length (?j # idxs) = Suc r \<and> res = map ((!) xs) (?j # idxs)"
      by auto
    then show ?thesis by blast
  qed
qed

lemma sample_set_total:
  "r \<le> card ((\<lambda>d. d mod length xs) ` set ds - sel) \<Longrightarrow> sample_set ds xs sel r \<noteq> None"
proof (induction ds xs sel r rule: sample_set.induct)
  case (1 ds xs sel)
  then show ?case by simp
next
  case (2 xs sel r)
  then show ?case by simp
next
  case (3 d ds xs sel r)
  let ?f = "\<lambda>d. d mod length xs"
  let ?j = "?f d"
  show ?case
  proof (cases "?j \<in> sel")
    case True
    then have "?f ` set (d # ds) - sel = ?f ` set ds - sel" by auto
    with "3.prems" have "Suc r \<le> card (?f ` set ds - sel)" by simp
    from "3.IH"(1)[OF refl True this] True show ?thesis by simp
  next
    case False
    have "?f ` set (d # ds) - sel \<subseteq> insert ?j (?f ` set ds - insert ?j sel)" by auto
    then have "card (?f ` set (d # ds) - sel) \<le> card (insert ?j (?f ` set ds - insert ?j sel))"
      by (intro card_mono) simp_all
    also have "\<dots> \<le> Suc (card (?f ` set ds - insert ?j sel))"
      by (simp add: card_insert_if)
    finally have "r \<le> card (?f ` set ds - insert ?j sel)" using "3.prems" by simp
    from "3.IH"(2)[OF refl False this] False show ?thesis by (simp add: Let_def)
  qed
qed

lemma setsize_pos: "0 < setsize k"
  by (simp add: setsize_def)

lemma sample_Done:
  assumes "sample ds xs k = Done res"
  shows "\<exists>idxs. distinct idxs \<and> (\<forall>i\<in>set idxs. i < length xs) \<and> length idxs = k \<and>
           res = map ((!) xs) idxs"
proof -
  from assms have k: "k \<le> length xs"
    by (auto simp: sample_def Let_def split: if_splits)
  show ?thesis
  proof (cases "length xs \<le> setsize k")
    case True
    with assms k have "sample_pool ds xs (length xs) k = Some res"
      by (auto simp: sample_def Let_def split: option.splits)
    from sample_pool_indices[OF k this] show ?thesis .
  next
    case False
    with assms k have r: "sample_set ds xs {} k = Some res"
      by (auto simp: sample_def Let_def split: option.splits)
    from False setsize_pos[of k] have "0 < length xs" by linarith
    from sample_set_indices[OF this r] show ?thesis by auto
  qed
qed

lemma sample_no_Raise: "k \<le> length xs \<Longrightarrow> sample ds xs k \<noteq> Raise e"
  by (auto simp: sample_def Let_def split: option.splits)

lemma sample_total:
  assumes "k \<le> length xs" "k \<le> card ((\<lambda>d. d mod length xs) ` set ds)"
  shows "\<exists>res. sample ds xs k = Done res"
proof (cases "length xs \<le> setsize k")
  case True
  have "card ((\<lambda>d. d mod length xs) ` set ds) \<le> card (set ds)"
    by (rule card_image_le) simp
  also have "\<dots> \<le> length ds" by (rule card_length)
  finally have "k \<le> length ds" using assms(2) by simp
  then have "sample_pool ds xs (length xs) k \<noteq> None" by (rule sample_pool_total)
  with True assms(1) show ?thesis
    by (auto simp: sample_def Let_def split: option.splits)
next
  case False
  from assms(2) have "sample_set ds xs {} k \<noteq> None"
    by (intro sample_set_total) simp
  with False assms(1) show ?thesis
    by (auto simp: sample_def Let_def split: option.splits)
qed

text \<open>
  Claim C1. For a non-empty bank of size \<open>N\<close> and the configured count
  \<open>C = QUESTIONS_PER_TEST\<close>, \<^verbatim>\<open>start_test\<close> stores \<open>min C N\<close> records taken from the bank
  at pairwise distinct positions: every stored record is a member of the bank, no
  record is stored more often than the bank holds it, and the stored records are pairwise
  different when those of the bank are. The call raises nothing, and it
  returns as soon as the generator has produced \<open>min C N\<close> draws that differ modulo \<open>N\<close>.
\<close>

theorem start_test_sampling:
  assumes "bank \<noteq> []"
  shows "(min QUESTIONS_PER_TEST (length bank) \<le> card ((\<lambda>d. d mod length bank) ` set ds) \<longrightarrow>
           (\<exists>p. start_test (Loaded (JArr bank)) ds now s = Done p)) \<and>
         (\<forall>e. start_test (Loaded (JArr bank)) ds now s \<noteq> Raise e) \<and>
         (\<forall>msgs s'. start_test (Loaded (JArr bank)) ds now s = Done (msgs, s') \<longrightarrow>
            (\<exists>chosen idxs. selected_questions s' = Some chosen \<and>
               length chosen = min QUESTIONS_PER_TEST (length bank) \<and>
               distinct idxs \<and> (\<forall>i\<in>set idxs. i < length bank) \<and>
               chosen = map ((!) bank) idxs \<and>
               set chosen \<subseteq> set bank \<and> mset chosen \<subseteq># mset bank \<and>
               (distinct bank \<longrightarrow> distinct chosen)))"
proof (intro conjI impI allI)
  let ?k = "min QUESTIONS_PER_TEST (length bank)"
  have k: "?k \<le> length bank" by simp
  {
    assume "?k \<le> card ((\<lambda>d. d mod length bank) ` set ds)"
    from sample_total[OF k this] obtain res where "sample ds bank ?k = Done res" ..
    with assms show "\<exists>p. start_test (Loaded (JArr bank)) ds now s = Done p"
      by (simp add: start_test_def)
  }
  {
    fix e
    from sample_no_Raise[OF k] assms
    show "start_test (Loaded (JArr bank)) ds now s \<noteq> Raise e"
      by (auto simp: start_test_def split: outcome.splits)
  }
  {
    fix msgs s'
    assume "start_test (Loaded (JArr bank)) ds now s = Done (msgs, s')"
    with assms obtain chosen where
      c: "sample ds bank ?k = Done chosen" and s': "selected_questions s' = Some chosen"
      by (auto simp: start_test_def split: outcome.splits)
    from sample_Done[OF c] obtain idxs where
      idxs: "distinct idxs" "\<forall>i\<in>set idxs. i < length bank" "length idxs = ?k"
        "chosen = map ((!) bank) idxs"
      by blast
    have "mset chosen \<subseteq># mset bank"
      unfolding idxs(4) using idxs(1,2) by (rule map_nth_mset_le)
    moreover from idxs(2,4) have "set chosen \<subseteq> set bank" by auto
    moreover have "distinct bank \<longrightarrow> distinct chosen"
    proof
      assume "distinct bank"
      with idxs(2) have "inj_on ((!) bank) (set idxs)" by (intro inj_on_nth) simp_all
      with idxs(1) show "distinct chosen" unfolding idxs(4) by (simp add: distinct_map)
    qed
    ultimately show "\<exists>chosen idxs. selected_questions s' = Some chosen \<and>
               length chosen = ?k \<and>
               distinct idxs \<and> (\<forall>i\<in>set idxs. i < length bank) \<and>
               chosen = map ((!) bank) idxs \<and>
               set chosen \<subseteq> set bank \<and> mset chosen \<subseteq># mset bank \<and>
               (distinct bank \<longrightarrow> distinct chosen)"
      using s' idxs by (intro exI[of _ chosen] exI[of _ idxs]) simp
  }
qed

theorem start_test_sampling_witness:
  "[JStr ''q1'', JStr ''q2'', JStr ''q3''] \<noteq> [] \<and>
   (\<exists>msgs s' chosen idxs.
      start_test (Loaded (JArr [JStr ''q1'', JStr ''q2'', JStr ''q3''])) [0, 1, 2] 0 fresh_session
        = Done (msgs, s') \<and>
      selected_questions s' = Some chosen \<and> length chosen = 3 \<and> distinct idxs \<and>
      chosen = map ((!) [JStr ''q1'', JStr ''q2'', JStr ''q3'']) idxs)"
proof -
  let ?bank = "[JStr ''q1'', JStr ''q2'', JStr ''q3'']"
  have ne: "?bank \<noteq> []" by simp
  have enough: "min QUESTIONS_PER_TEST (length ?bank) \<le> card ((\<lambda>d. d mod length ?bank) ` set [0, 1, 2])"
    by (simp add: QUESTIONS_PER_TEST_def)
  note t = start_test_sampling[OF ne, of "[0, 1, 2]" 0 fresh_session]
  from t enough obtain msgs s' where
    d: "start_test (Loaded (JArr ?bank)) [0, 1, 2] 0 fresh_session = Done (msgs, s')"
    by fastforce
  with t obtain chosen idxs where
    "selected_questions s' = Some chosen" "length chosen = min QUESTIONS_PER_TEST (length ?bank)"
    "distinct idxs" "chosen = map ((!) ?bank) idxs"
    by blast
  with d ne show ?thesis by (auto simp: QUESTIONS_PER_TEST_def)
qed

section \<open>Grading\<close>

text \<open>
  The grading loop raises only where a record cannot be subscripted; where it returns,
  it has appended one expander per question and added one point per correct answer; and
  it reads the widgets at the indices of the questions only.
\<close>

lemma getitem_Inl: "getitem q k = Inl e \<Longrightarrow> e = KeyError \<or> e = TypeError"
  by (cases q) (auto split: option.splits)

lemma get_default_after_getitem: "getitem q k = Inr v \<Longrightarrow> \<exists>t. get_default q k' d = Inr t"
  by (cases q) (auto split: option.splits)

lemma answerable_getitem:
  "answerable q \<longleftrightarrow> (\<exists>a t. getitem q ''answer'' = Inr a \<and> getitem q ''question'' = Inr t)"
  by (cases q) (auto simp: answerable_def split: option.splits)

lemma py_eq_None: "py_eq JNull a \<longleftrightarrow> a = JNull"
  by (cases a) simp_all

lemma grade_loop_Inl:
  "grade_loop w i qs score out = Inl e \<Longrightarrow> e = KeyError \<or> e = TypeError"
proof (induction qs arbitrary: i score out)
  case Nil
  then show ?case by simp
next
  case (Cons q qs)
  show ?case
  proof (cases "getitem q ''answer''")
    case (Inl e')
    with Cons.prems have "e = e'" by (simp add: Let_def)
    with Inl show ?thesis by (auto dest: getitem_Inl)
  next
    case a: (Inr correct)
    show ?thesis
    proof (cases "getitem q ''question''")
      case (Inl e')
      with Cons.prems a have "e = e'" by (simp add: Let_def)
      with Inl show ?thesis by (auto dest: getitem_Inl)
    next
      case t: (Inr qtext)
      from get_default_after_getitem[OF a] obtain tp where
        tp: "get_default q ''topic'' (JStr ''General'') = Inr tp" by blast
      from Cons.prems a t tp obtain i' score' out' where
        "grade_loop w i' qs score' out' = Inl e"
        by (auto simp: Let_def split: if_splits)
      then show ?thesis by (rule Cons.IH)
    qed
  qed
qed

lemma grade_loop_answerable:
  "\<forall>q\<in>set qs. answerable q \<Longrightarrow> \<exists>res. grade_loop w i qs score out = Inr res"
proof (induction qs arbitrary: i score out)
  case Nil
  then show ?case by simp
next
  case (Cons q qs)
  from Cons.prems obtain a t where
    a: "getitem q ''answer'' = Inr a" and t: "getitem q ''question'' = Inr t"
    by (auto simp: answerable_getitem)
  from get_default_after_getitem[OF a] obtain tp where
    tp: "get_default q ''topic'' (JStr ''General'') = Inr tp" by blast
  from Cons.prems have rest: "\<forall>q\<in>set qs. answerable q" by simp
  show ?case using a t tp Cons.IH[OF rest]
    by (simp add: Let_def)
qed

lemma grade_loop_Inr:
  "grade_loop w i qs score out = Inr (score', out') \<Longrightarrow>
     \<exists>new. out' = out @ new \<and> length new = length qs \<and>
       score' = score + length (filter is_correct new) \<and>
       (\<forall>n<length qs.
          getitem (qs ! n) ''answer'' = Inr (correct_val (new ! n)) \<and>
          user_val (new ! n) = session_get w (i + n) \<and>
          is_correct (new ! n) = py_eq (session_get w (i + n)) (correct_val (new ! n)))"
proof (induction qs arbitrary: i score out)
  case Nil
  then show ?case by simp
next
  case (Cons q qs)
  from Cons.prems obtain correct qtext caption where
    a: "getitem q ''answer'' = Inr correct" and
    rest: "grade_loop w (Suc i) qs
             (if py_eq (session_get w i) correct then score + 1 else score)
             (out @ [\<lparr>is_correct = py_eq (session_get w i) correct,
                      user_val = session_get w i, correct_val = correct,
                      question_text = qtext, topic_caption = caption\<rparr>]) = Inr (score', out')"
    by (auto simp: Let_def split: sum.splits)
  let ?r = "\<lparr>is_correct = py_eq (session_get w i) correct,
                      user_val = session_get w i, correct_val = correct,
                      question_text = qtext, topic_caption = caption\<rparr>"
  from Cons.IH[OF rest] obtain new where
    new: "out' = (out @ [?r]) @ new" "length new = length qs"
      "score' = (if py_eq (session_get w i) correct then score + 1 else score)
                 + length (filter is_correct new)"
      "\<forall>n<length qs.
          getitem (qs ! n) ''answer'' = Inr (correct_val (new ! n)) \<and>
          user_val (new ! n) = session_get w (Suc i + n) \<and>
          is_correct (new ! n) = py_eq (session_get w (Suc i + n)) (correct_val (new ! n))"
    by blast
  have "\<forall>n<length (q # qs).
          getitem ((q # qs) ! n) ''answer'' = Inr (correct_val ((?r # new) ! n)) \<and>
          user_val ((?r # new) ! n) = session_get w (i + n) \<and>
          is_correct ((?r # new) ! n) = py_eq (session_get w (i + n)) (correct_val ((?r # new) ! n))"
  proof (intro allI impI)
    fix n assume "n < length (q # qs)"
    then show "getitem ((q # qs) ! n) ''answer'' = Inr (correct_val ((?r # new) ! n)) \<and>
          user_val ((?r # new) ! n) = session_get w (i + n) \<and>
          is_correct ((?r # new) ! n) = py_eq (session_get w (i + n)) (correct_val ((?r # new) ! n))"
      using a new(4) by (cases n) simp_all
  qed
  moreover have "out' = out @ (?r # new)" using new(1) by simp
  moreover have "length (?r # new) = length (q # qs)" using new(2) by simp
  moreover have "score' = score + length (filter is_correct (?r # new))" using new(3) by simp
  ultimately show ?case by blast
qed

lemma grade_loop_cong:
  "\<forall>n<length qs. w1 (i + n) = w2 (i + n) \<Longrightarrow>
     grade_loop w1 i qs score out = grade_loop w2 i qs score out"
proof (induction qs arbitrary: i score out)
  case Nil
  then show ?case by simp
next
  case (Cons q qs)
  from Cons.prems have here: "session_get w1 i = session_get w2 i"
    by (auto simp: session_get_def)
  have "\<forall>n<length qs. w1 (Suc i + n) = w2 (Suc i + n)"
  proof (intro allI impI)
    fix n assume "n < length qs"
    then have "Suc n < length (q # qs)" by simp
    with Cons.prems have "w1 (i + Suc n) = w2 (i + Suc n)" by blast
    then show "w1 (Suc i + n) = w2 (Suc i + n)" by simp
  qed
  from Cons.IH[OF this] here show ?case
    by (simp add: Let_def split: sum.splits)
qed

lemma grade_Inr:
  assumes "grade late qs w = Inr r"
  shows "qs \<noteq> [] \<and> is_late r = late \<and> length (results r) = length qs \<and>
         total_questions r = length qs \<and>
         raw_score r = length (filter is_correct (results r)) \<and>
         final_score_pct r = of_nat (raw_score r) / of_nat (length qs) * 100 \<and>
         tier_message r = tier (raw_score r) \<and>
         (\<forall>n<length qs.
            getitem (qs ! n) ''answer'' = Inr (correct_val (results r ! n)) \<and>
            user_val (results r ! n) = session_get w n \<and>
            is_correct (results r ! n) = py_eq (session_get w n) (correct_val (results r ! n)))"
proof -
  from assms obtain score out where
    loop: "grade_loop w 0 qs 0 [] = Inr (score, out)" and ne: "qs \<noteq> []" and
    r: "r = \<lparr>is_late = late, results = out, raw_score = score,
             total_questions = length qs,
             final_score_pct = (of_nat score / of_nat (length qs)) * 100,
             tier_message = tier score\<rparr>"
    by (auto simp: grade_def split: sum.splits if_splits)
  from grade_loop_Inr[OF loop] obtain new where
    new: "out = [] @ new" "length new = length qs" "score = 0 + length (filter is_correct new)"
      "\<forall>n<length qs.
          getitem (qs ! n) ''answer'' = Inr (correct_val (new ! n)) \<and>
          user_val (new ! n) = session_get w (0 + n) \<and>
          is_correct (new ! n) = py_eq (session_get w (0 + n)) (correct_val (new ! n))"
    by blast
  with ne r show ?thesis by simp
qed

lemma grade_answerable:
  assumes "qs \<noteq> []" "\<forall>q\<in>set qs. answerable q"
  shows "\<exists>r. grade late qs w = Inr r"
proof -
  from grade_loop_answerable[OF assms(2)] obtain res where
    "grade_loop w 0 qs 0 [] = Inr res" by blast
  with assms(1) show ?thesis by (cases res) (simp add: grade_def)
qed

lemma grade_ZeroDivisionError: "grade late qs w = Inl ZeroDivisionError \<longleftrightarrow> qs = []"
proof
  assume z: "grade late qs w = Inl ZeroDivisionError"
  show "qs = []"
  proof (rule ccontr)
    assume "qs \<noteq> []"
    with z have "grade_loop w 0 qs 0 [] = Inl ZeroDivisionError"
      by (auto simp: grade_def split: sum.splits)
    from grade_loop_Inl[OF this] show False by simp
  qed
next
  assume "qs = []"
  then show "grade late qs w = Inl ZeroDivisionError" by (simp add: grade_def)
qed

lemma grade_late_flag:
  "grade late qs w = map_sum id (\<lambda>r. r\<lparr>is_late := late\<rparr>) (grade late' qs w)"
  by (auto simp: grade_def split: sum.splits)

lemma grade_cong:
  assumes "\<forall>n<length qs. w1 n = w2 n"
  shows "grade late qs w1 = grade late qs w2"
proof -
  from assms have "\<forall>n<length qs. w1 (0 + n) = w2 (0 + n)" by simp
  from grade_loop_cong[OF this] show ?thesis by (simp add: grade_def)
qed

text \<open>
  Claim C2. Grading a non-empty session whose records carry the entries the loop reads
  returns a report. In every report, question \<open>i\<close> is marked correct exactly when the
  response stored for index \<open>i\<close> equals (Python's \<^verbatim>\<open>==\<close>) the record's \<^verbatim>\<open>answer\<close>, the raw
  score is the number of questions marked correct, and the percentage is
  \<open>100 * raw_score / total_questions\<close>. For three questions with the answers A, B, C and the
  responses A, X, C the raw score is 2 and the percentage is \<open>200 / 3\<close>, within \<open>0.05\<close> of
  \<open>66.7\<close>.
\<close>

theorem grade_scoring:
  "(qs \<noteq> [] \<and> (\<forall>q\<in>set qs. answerable q) \<longrightarrow> (\<exists>r. grade late qs w = Inr r)) \<and>
   (\<forall>r. grade late qs w = Inr r \<longrightarrow>
      length (results r) = length qs \<and>
      (\<forall>i<length qs. \<exists>a. getitem (qs ! i) ''answer'' = Inr a \<and>
         is_correct (results r ! i) = py_eq (session_get w i) a) \<and>
      raw_score r = length (filter is_correct (results r)) \<and>
      final_score_pct r = 100 * of_nat (raw_score r) / of_nat (length qs)) \<and>
   (\<exists>r. grade False
          (map (\<lambda>a. JObj [(''question'', JStr ''q''), (''answer'', JStr a)]) [''A'', ''B'', ''C''])
          [0 \<mapsto> JStr ''A'', 1 \<mapsto> JStr ''X'', 2 \<mapsto> JStr ''C''] = Inr r \<and>
        map is_correct (results r) = [True, False, True] \<and>
        raw_score r = 2 \<and> final_score_pct r = 200 / 3 \<and>
        \<bar>final_score_pct r - 66.7\<bar> < 0.05)"
proof (intro conjI allI impI)
  assume "qs \<noteq> [] \<and> (\<forall>q\<in>set qs. answerable q)"
  then show "\<exists>r. grade late qs w = Inr r" by (simp add: grade_answerable)
next
  fix r assume r: "grade late qs w = Inr r"
  note g = grade_Inr[OF r]
  from g show "length (results r) = length qs" by simp
  from g show "raw_score r = length (filter is_correct (results r))" by simp
  from g show "final_score_pct r = 100 * of_nat (raw_score r) / of_nat (length qs)" by simp
  fix i assume "i < length qs"
  with g have "getitem (qs ! i) ''answer'' = Inr (correct_val (results r ! i)) \<and>
    is_correct (results r ! i) = py_eq (session_get w i) (correct_val (results r ! i))"
    by blast
  then show "\<exists>a. getitem (qs ! i) ''answer'' = Inr a \<and>
         is_correct (results r ! i) = py_eq (session_get w i) a" by blast
next
  show "\<exists>r. grade False
          (map (\<lambda>a. JObj [(''question'', JStr ''q''), (''answer'', JStr a)]) [''A'', ''B'', ''C''])
          [0 \<mapsto> JStr ''A'', 1 \<mapsto> JStr ''X'', 2 \<mapsto> JStr ''C''] = Inr r \<and>
        map is_correct (results r) = [True, False, True] \<and>
        raw_score r = 2 \<and> final_score_pct r = 200 / 3 \<and>
        \<bar>final_score_pct r - 66.7\<bar> < 0.05"
    by (simp add: grade_def session_get_def Let_def)
qed

theorem grade_scoring_witness:
  "(\<exists>r. grade True
          [JObj [(''question'', JStr ''q1''), (''answer'', JStr ''A'')],
           JObj [(''question'', JStr ''q2''), (''answer'', JStr ''B'')]]
          [0 \<mapsto> JStr ''A''] = Inr r \<and>
        length (results r) = 2 \<and>
        is_correct (results r ! 0) = py_eq (JStr ''A'') (JStr ''A'') \<and>
        is_correct (results r ! 1) = py_eq JNull (JStr ''B'') \<and>
        raw_score r = length (filter is_correct (results r)) \<and>
        final_score_pct r = 100 * of_nat (raw_score r) / 2)"
proof -
  let ?qs = "[JObj [(''question'', JStr ''q1''), (''answer'', JStr ''A'')],
           JObj [(''question'', JStr ''q2''), (''answer'', JStr ''B'')]]"
  let ?w = "[0 \<mapsto> JStr ''A'']"
  note t = grade_scoring[of ?qs True ?w]
  have "?qs \<noteq> [] \<and> (\<forall>q\<in>set ?qs. answerable q)" by (simp add: answerable_def)
  with t obtain r where r: "grade True ?qs ?w = Inr r" by blast
  with t have a: "length (results r) = length ?qs"
    and b: "\<forall>i<length ?qs. \<exists>a. getitem (?qs ! i) ''answer'' = Inr a \<and>
         is_correct (results r ! i) = py_eq (session_get ?w i) a"
    and c: "raw_score r = length (filter is_correct (results r))"
    and d: "final_score_pct r = 100 * of_nat (raw_score r) / of_nat (length ?qs)"
    by blast+
  from b[rule_format, of 0] have "\<exists>a. getitem (?qs ! 0) ''answer'' = Inr a \<and>
         is_correct (results r ! 0) = py_eq (session_get ?w 0) a" by simp
  then have b0: "is_correct (results r ! 0) = py_eq (JStr ''A'') (JStr ''A'')"
    by (simp add: session_get_def)
  from b[rule_format, of 1] have "\<exists>a. getitem (?qs ! 1) ''answer'' = Inr a \<and>
         is_correct (results r ! 1) = py_eq (session_get ?w 1) a" by simp
  then have b1: "is_correct (results r ! 1) = py_eq JNull (JStr ''B'')"
    by (simp add: session_get_def)
  from r a b0 b1 c d show ?thesis by simp
qed

text \<open>
  Claim C3. The closing message of a report is a function of its raw score: the
  "excellent" message from 25 up, the "review" message from 15 to 24, the "keep
  practicing" message below 15; so 25, 24, 15 and 14 give excellent, review, review and
  keep practicing. The three messages differ.
\<close>

theorem tier_boundaries:
  assumes "grade late qs w = Inr r"
  shows "tier_message r = tier (raw_score r) \<and>
         (25 \<le> raw_score r \<longrightarrow> tier_message r = excellent_work) \<and>
         (15 \<le> raw_score r \<and> raw_score r < 25 \<longrightarrow> tier_message r = good_effort) \<and>
         (raw_score r < 15 \<longrightarrow> tier_message r = keep_practicing) \<and>
         tier 25 = excellent_work \<and> tier 24 = good_effort \<and>
         tier 15 = good_effort \<and> tier 14 = keep_practicing \<and>
         excellent_work \<noteq> good_effort \<and> good_effort \<noteq> keep_practicing \<and>
         excellent_work \<noteq> keep_practicing"
proof -
  from grade_Inr[OF assms] have "tier_message r = tier (raw_score r)" by simp
  then show ?thesis
    by (simp add: tier_def excellent_work_def good_effort_def keep_practicing_def)
qed

theorem tier_boundaries_witness:
  "grade False [JObj [(''question'', JStr ''q''), (''answer'', JStr ''A'')]] [0 \<mapsto> JStr ''A'']
     = Inr \<lparr>is_late = False,
            results = [\<lparr>is_correct = True, user_val = JStr ''A'', correct_val = JStr ''A'',
                        question_text = JStr ''q'', topic_caption = None\<rparr>],
            raw_score = 1, total_questions = 1, final_score_pct = 100,
            tier_message = keep_practicing\<rparr> \<and>
   tier 1 = keep_practicing"
proof -
  have g: "grade False [JObj [(''question'', JStr ''q''), (''answer'', JStr ''A'')]] [0 \<mapsto> JStr ''A'']
     = Inr \<lparr>is_late = False,
            results = [\<lparr>is_correct = True, user_val = JStr ''A'', correct_val = JStr ''A'',
                        question_text = JStr ''q'', topic_caption = None\<rparr>],
            raw_score = 1, total_questions = 1, final_score_pct = 100,
            tier_message = tier 1\<rparr>"
    by (simp add: grade_def session_get_def Let_def)
  from tier_boundaries[OF g] have "tier 1 = keep_practicing" by simp
  with g show ?thesis by simp
qed

text \<open>
  Claim C4, as the code has it. The claim says that grading a session with no questions
  fails with an \<^verbatim>\<open>EmptySession\<close> error instead of dividing by zero. The code has no such
  guard: on the empty session the percentage is computed and the division raises
  \<^verbatim>\<open>ZeroDivisionError\<close>.
\<close>

theorem grade_empty_session_counterexample:
  "grade False [] Map.empty = Inl ZeroDivisionError"
  by (simp add: grade_def)

text \<open>
  Claim C4, amended. Grading raises \<^verbatim>\<open>ZeroDivisionError\<close> exactly when the session has no
  questions, and it raises nothing on a non-empty session whose records all carry the
  \<^verbatim>\<open>answer\<close> and \<^verbatim>\<open>question\<close> entries.
\<close>

theorem grade_division_unguarded:
  "(grade late qs w = Inl ZeroDivisionError \<longleftrightarrow> qs = []) \<and>
   (qs \<noteq> [] \<and> (\<forall>q\<in>set qs. answerable q) \<longrightarrow> (\<exists>r. grade late qs w = Inr r))"
  using grade_ZeroDivisionError[of late qs w] grade_answerable[of qs late w] by blast

theorem grade_division_unguarded_witness:
  "grade True [] [0 \<mapsto> JStr ''A''] = Inl ZeroDivisionError \<and>
   (\<exists>r. grade True [JObj [(''question'', JStr ''q''), (''answer'', JStr ''A'')]]
           [0 \<mapsto> JStr ''A''] = Inr r)"
proof -
  let ?q = "JObj [(''question'', JStr ''q''), (''answer'', JStr ''A'')]"
  have "[?q] \<noteq> [] \<and> (\<forall>q\<in>set [?q]. answerable q)" by (simp add: answerable_def)
  with grade_division_unguarded[of True "[?q]" "[0 \<mapsto> JStr ''A'']"]
  have "\<exists>r. grade True [?q] [0 \<mapsto> JStr ''A''] = Inr r" by blast
  moreover from grade_division_unguarded[of True "[]" "[0 \<mapsto> JStr ''A'']"]
  have "grade True [] [0 \<mapsto> JStr ''A''] = Inl ZeroDivisionError" by simp
  ultimately show ?thesis by blast
qed

text \<open>
  Claim C5, as the code has it. The claim says that no selection is scored incorrect for
  every question. A record whose \<^verbatim>\<open>answer\<close> is \<^verbatim>\<open>null\<close> passes the loader, which checks
  nothing below the top level; \<^verbatim>\<open>None == None\<close> holds, so no selection is scored correct
  there.
\<close>

theorem no_selection_counterexample:
  "grade False
     [JObj [(''question'', JStr ''q''), (''options'', JArr [JStr ''a'']), (''answer'', JNull)]]
     Map.empty
   = Inr \<lparr>is_late = False,
          results = [\<lparr>is_correct = True, user_val = JNull, correct_val = JNull,
                      question_text = JStr ''q'', topic_caption = None\<rparr>],
          raw_score = 1, total_questions = 1, final_score_pct = 100,
          tier_message = keep_practicing\<rparr>"
  by (simp add: grade_def session_get_def tier_def Let_def)

text \<open>
  Claim C5, amended. On a non-empty session whose records all carry the \<^verbatim>\<open>answer\<close> and
  \<^verbatim>\<open>question\<close> entries, grading raises nothing, and every question left without a
  selection whose \<^verbatim>\<open>answer\<close> is not \<^verbatim>\<open>null\<close> is scored incorrect.
\<close>

theorem no_selection_incorrect:
  assumes "qs \<noteq> []" "\<forall>q\<in>set qs. answerable q"
  shows "\<exists>r. grade late qs w = Inr r \<and>
           (\<forall>i<length qs. session_get w i = JNull \<and> getitem (qs ! i) ''answer'' \<noteq> Inr JNull \<longrightarrow>
              \<not> is_correct (results r ! i))"
proof -
  from grade_answerable[OF assms] obtain r where r: "grade late qs w = Inr r" by blast
  have "\<not> is_correct (results r ! i)"
    if "i < length qs" "session_get w i = JNull" "getitem (qs ! i) ''answer'' \<noteq> Inr JNull" for i
  proof -
    from grade_Inr[OF r] that(1) have
      "getitem (qs ! i) ''answer'' = Inr (correct_val (results r ! i))"
      "is_correct (results r ! i) = py_eq (session_get w i) (correct_val (results r ! i))"
      by blast+
    with that(2,3) show ?thesis by (simp add: py_eq_None)
  qed
  with r show ?thesis by blast
qed

theorem no_selection_incorrect_witness:
  "(\<exists>r. grade False
          [JObj [(''question'', JStr ''q1''), (''answer'', JStr ''A'')],
           JObj [(''question'', JStr ''q2''), (''answer'', JStr ''B'')]]
          [1 \<mapsto> JStr ''B''] = Inr r \<and>
        \<not> is_correct (results r ! 0))"
proof -
  let ?qs = "[JObj [(''question'', JStr ''q1''), (''answer'', JStr ''A'')],
           JObj [(''question'', JStr ''q2''), (''answer'', JStr ''B'')]]"
  let ?w = "[1 \<mapsto> JStr ''B'']"
  have ne: "?qs \<noteq> []" by simp
  have ok: "\<forall>q\<in>set ?qs. answerable q" by (simp add: answerable_def)
  from no_selection_incorrect[OF ne ok, of False ?w] obtain r where
    r: "grade False ?qs ?w = Inr r" and
    n: "\<forall>i<length ?qs. session_get ?w i = JNull \<and> getitem (?qs ! i) ''answer'' \<noteq> Inr JNull \<longrightarrow>
              \<not> is_correct (results r ! i)"
    by blast
  from n[rule_format, of 0] have "session_get ?w 0 = JNull \<and> getitem (?qs ! 0) ''answer'' \<noteq> Inr JNull \<longrightarrow>
              \<not> is_correct (results r ! 0)" by simp
  then have "\<not> is_correct (results r ! 0)" by (simp add: session_get_def)
  with r show ?thesis by blast
qed

section \<open>Loading and starting\<close>

lemma isinstance_list_iff: "isinstance_list v \<longleftrightarrow> (\<exists>data. v = JArr data)"
  by (cases v) (simp_all add: isinstance_list_def)

lemma msgs_distinct:
  "not_found_msg \<noteq> format_incorrect_msg" "not_found_msg \<noteq> decode_error_msg"
  "format_incorrect_msg \<noteq> decode_error_msg"
  by (simp_all add: not_found_msg_def format_incorrect_msg_def decode_error_msg_def)

text \<open>
  Claim C6, as the code has it. The claim splits the outcomes of loading in three: not
  found, malformed, and otherwise the parsed list. A file that is there and is not text
  in the default encoding makes \<^verbatim>\<open>json.load\<close> raise \<^verbatim>\<open>UnicodeDecodeError\<close>, which neither
  \<^verbatim>\<open>except\<close> clause names: the function reports nothing and returns nothing, the exception
  leaves it.
\<close>

theorem load_questions_from_file_counterexample:
  "load_questions_from_file (Raised UnicodeDecodeError) = Inl UnicodeDecodeError"
  by simp

text \<open>
  Claim C6, amended. \<^verbatim>\<open>load_questions_from_file\<close> reports "not found" (the message of line
  25, with an empty list) exactly when \<^verbatim>\<open>open\<close> raises \<^verbatim>\<open>FileNotFoundError\<close>; it reports
  "malformed" (the message of line 28 or of line 22, with an empty list) exactly when
  \<^verbatim>\<open>json.load\<close> raises \<^verbatim>\<open>JSONDecodeError\<close> or the decoded value is not a list; it reports
  nothing and returns a list exactly when that list is the decoded value; and every other
  exception raised in reading the file, and only those, leaves the function.
\<close>

theorem load_questions_from_file_cases:
  "(load_questions_from_file src = Inr ([not_found_msg], []) \<longleftrightarrow>
      src = Raised FileNotFoundError) \<and>
   (load_questions_from_file src = Inr ([decode_error_msg], []) \<or>
    load_questions_from_file src = Inr ([format_incorrect_msg], []) \<longleftrightarrow>
      src = Raised JSONDecodeError \<or> (\<exists>v. src = Loaded v \<and> \<not> isinstance_list v)) \<and>
   (\<forall>data. load_questions_from_file src = Inr ([], data) \<longleftrightarrow> src = Loaded (JArr data)) \<and>
   (\<forall>e. load_questions_from_file src = Inl e \<longleftrightarrow>
      src = Raised e \<and> e \<noteq> FileNotFoundError \<and> e \<noteq> JSONDecodeError)"
proof (cases src)
  case (Raised e)
  then show ?thesis using msgs_distinct by (cases e) auto
next
  case (Loaded v)
  then show ?thesis using msgs_distinct by (cases v) (auto simp: isinstance_list_def)
qed

theorem load_questions_from_file_cases_witness:
  "load_questions_from_file (Loaded (JArr [JStr ''q1''])) = Inr ([], [JStr ''q1'']) \<and>
   load_questions_from_file (Raised FileNotFoundError) = Inr ([not_found_msg], []) \<and>
   (load_questions_from_file (Loaded (JStr ''x'')) = Inr ([decode_error_msg], []) \<or>
    load_questions_from_file (Loaded (JStr ''x'')) = Inr ([format_incorrect_msg], [])) \<and>
   load_questions_from_file (Raised OSError) = Inl OSError"
proof -
  from load_questions_from_file_cases[of "Loaded (JArr [JStr ''q1''])"]
  have a: "load_questions_from_file (Loaded (JArr [JStr ''q1''])) = Inr ([], [JStr ''q1''])"
    by blast
  from load_questions_from_file_cases[of "Raised FileNotFoundError"]
  have b: "load_questions_from_file (Raised FileNotFoundError) = Inr ([not_found_msg], [])"
    by blast
  have "\<exists>v. Loaded (JStr ''x'') = Loaded v \<and> \<not> isinstance_list v"
    by (simp add: isinstance_list_def)
  with load_questions_from_file_cases[of "Loaded (JStr ''x'')"]
  have c: "load_questions_from_file (Loaded (JStr ''x'')) = Inr ([decode_error_msg], []) \<or>
    load_questions_from_file (Loaded (JStr ''x'')) = Inr ([format_incorrect_msg], [])"
    by blast
  have "Raised OSError = Raised OSError \<and> OSError \<noteq> FileNotFoundError \<and>
        OSError \<noteq> JSONDecodeError" by simp
  with load_questions_from_file_cases[of "Raised OSError"]
  have d: "load_questions_from_file (Raised OSError) = Inl OSError" by blast
  from a b c d show ?thesis by blast
qed

text \<open>
  Claim C7. When the file is missing, is not a JSON document, does not hold a list, or
  holds the empty list, \<^verbatim>\<open>start_test\<close> returns with the session state as it was:
  \<^verbatim>\<open>selected_questions\<close>, \<^verbatim>\<open>start_time\<close> and \<^verbatim>\<open>exam_started\<close> (and the widgets) are untouched.
\<close>

theorem start_test_noop:
  assumes "src = Raised FileNotFoundError \<or> src = Raised JSONDecodeError \<or>
           (\<exists>v. src = Loaded v \<and> \<not> isinstance_list v) \<or> src = Loaded (JArr [])"
  shows "\<exists>msgs. start_test src ds now s = Done (msgs, s)"
proof -
  from assms have "\<exists>msgs. load_questions_from_file src = Inr (msgs, [])"
  proof (elim disjE exE conjE)
    fix v assume "src = Loaded v" "\<not> isinstance_list v"
    then show ?thesis by (cases v) (simp_all add: isinstance_list_def)
  qed simp_all
  then show ?thesis by (auto simp: start_test_def)
qed

theorem start_test_noop_witness:
  "(\<exists>msgs. start_test (Raised FileNotFoundError) [0, 1, 2] 17
      \<lparr>exam_started = Some True, selected_questions = Some [JStr ''q1''],
       start_time = Some (Some 5), widgets = Map.empty\<rparr>
    = Done (msgs,
      \<lparr>exam_started = Some True, selected_questions = Some [JStr ''q1''],
       start_time = Some (Some 5), widgets = Map.empty\<rparr>))"
  using start_test_noop[of "Raised FileNotFoundError" "[0, 1, 2]" 17
      "\<lparr>exam_started = Some True, selected_questions = Some [JStr ''q1''],
       start_time = Some (Some 5), widgets = Map.empty\<rparr>"]
  by simp

section \<open>Submitting\<close>

lemma initialize_session_started:
  assumes "exam_started s = Some True"
  shows "exam_started (initialize_session s) = Some True"
    and "widgets (initialize_session s) = widgets s"
    and "start_time s = Some t \<Longrightarrow> start_time (initialize_session s) = Some t"
    and "selected_questions s = Some qs \<Longrightarrow> selected_questions (initialize_session s) = Some qs"
  using assms by (simp_all add: initialize_session_def)

lemma form_loop_Inl:
  "form_loop st_radio i qs = Inl e \<Longrightarrow>
     e = KeyError \<or> e = TypeError \<or> e = StreamlitAPIException"
proof (induction qs arbitrary: i)
  case Nil
  then show ?case by simp
next
  case (Cons q qs)
  show ?case
  proof (cases "getitem q ''question''")
    case (Inl e')
    with Cons.prems have "e = e'" by simp
    with Inl show ?thesis by (auto dest: getitem_Inl)
  next
    case p: (Inr prompt)
    show ?thesis
    proof (cases "getitem q ''options''")
      case (Inl e')
      with Cons.prems p have "e = e'" by simp
      with Inl show ?thesis by (auto dest: getitem_Inl)
    next
      case (Inr opts)
      with Cons.prems p Cons.IH[of "Suc i"] show ?thesis
        by (auto split: if_splits)
    qed
  qed
qed

lemma main_submitted_started:
  assumes "exam_started s = Some True" "start_time s = Some (Some t)"
    "selected_questions s = Some qs"
  shows "main_submitted st_radio now s =
         (case form_loop st_radio 0 qs of
            Inl e \<Rightarrow> Inl e
          | Inr drawn \<Rightarrow>
              map_sum id Some
                (grade (now - t > of_nat (TEST_DURATION_MINUTES * 60)) qs (widgets s)))"
  using assms
  by (simp add: main_submitted_def Let_def initialize_session_started split: sum.splits)

lemma map_sum_Some_Inl: "map_sum id Some x = Inl e \<longleftrightarrow> x = Inl e"
  by (cases x) simp_all

lemma map_sum_Some_Inr: "map_sum id Some x = Inr (Some r) \<longleftrightarrow> x = Inr r"
  by (cases x) simp_all

text \<open>
  Claim C8. In a started session with start time \<open>t\<close>, a run of \<^verbatim>\<open>main\<close> on a form
  submitted at time \<open>now\<close> ends as a run at any other time does, but for the flag
  \<open>is_late = (now - t > TEST_DURATION_MINUTES * 60)\<close> of its report; the report is the one
  grading gives an on-time submission, with that flag. A late submission of a non-empty
  session whose form is drawn and whose records carry the entries the grading loop reads
  gets a complete report (one verdict per question, raw score, percentage, closing
  message) with \<open>is_late\<close> set.
\<close>

theorem lateness_advisory:
  assumes "exam_started s = Some True" "start_time s = Some (Some t)"
    "selected_questions s = Some qs"
  shows "main_submitted st_radio now s =
           map_sum id (map_option (\<lambda>r. r\<lparr>is_late := (now - t > of_nat (TEST_DURATION_MINUTES * 60))\<rparr>))
             (main_submitted st_radio now' s) \<and>
         (\<forall>r. main_submitted st_radio now s = Inr (Some r) \<longrightarrow>
            is_late r = (now - t > of_nat (TEST_DURATION_MINUTES * 60)) \<and>
            grade False qs (widgets s) = Inr (r\<lparr>is_late := False\<rparr>)) \<and>
         (qs \<noteq> [] \<and> (\<forall>q\<in>set qs. answerable q) \<and> form_loop st_radio 0 qs = Inr () \<and>
          now - t > of_nat (TEST_DURATION_MINUTES * 60) \<longrightarrow>
            (\<exists>r. main_submitted st_radio now s = Inr (Some r) \<and> is_late r \<and>
               length (results r) = length qs \<and>
               raw_score r = length (filter is_correct (results r)) \<and>
               final_score_pct r = 100 * of_nat (raw_score r) / of_nat (length qs) \<and>
               tier_message r = tier (raw_score r)))"
proof (intro conjI allI impI)
  let ?late = "now - t > of_nat (TEST_DURATION_MINUTES * 60)"
  let ?late' = "now' - t > of_nat (TEST_DURATION_MINUTES * 60)"
  note m = main_submitted_started[OF assms, of st_radio now]
  note m' = main_submitted_started[OF assms, of st_radio now']
  show "main_submitted st_radio now s =
          map_sum id (map_option (\<lambda>r. r\<lparr>is_late := ?late\<rparr>)) (main_submitted st_radio now' s)"
  proof (cases "form_loop st_radio 0 qs")
    case (Inl e)
    with m m' show ?thesis by simp
  next
    case (Inr drawn)
    have "grade ?late qs (widgets s) =
          map_sum id (\<lambda>r. r\<lparr>is_late := ?late\<rparr>) (grade ?late' qs (widgets s))"
      by (rule grade_late_flag)
    with m m' Inr show ?thesis
      by (cases "grade ?late' qs (widgets s)") simp_all
  qed
  {
    fix r assume a: "main_submitted st_radio now s = Inr (Some r)"
    with m have "map_sum id Some (grade ?late qs (widgets s)) = Inr (Some r)"
      by (cases "form_loop st_radio 0 qs") simp_all
    then have g: "grade ?late qs (widgets s) = Inr r" by (simp only: map_sum_Some_Inr)
    from grade_Inr[OF g] show "is_late r = ?late" by simp
    from grade_late_flag[of False qs "widgets s" ?late] g
    show "grade False qs (widgets s) = Inr (r\<lparr>is_late := False\<rparr>)" by simp
  }
  {
    assume a: "qs \<noteq> [] \<and> (\<forall>q\<in>set qs. answerable q) \<and> form_loop st_radio 0 qs = Inr () \<and>
               ?late"
    then obtain r where g: "grade ?late qs (widgets s) = Inr r"
      using grade_answerable[of qs ?late "widgets s"] by blast
    with m a have "main_submitted st_radio now s = Inr (Some r)" by simp
    moreover from grade_Inr[OF g] a have "is_late r" "length (results r) = length qs"
      "raw_score r = length (filter is_correct (results r))"
      "final_score_pct r = 100 * of_nat (raw_score r) / of_nat (length qs)"
      "tier_message r = tier (raw_score r)"
      by simp_all
    ultimately show "\<exists>r. main_submitted st_radio now s = Inr (Some r) \<and> is_late r \<and>
               length (results r) = length qs \<and>
               raw_score r = length (filter is_correct (results r)) \<and>
               final_score_pct r = 100 * of_nat (raw_score r) / of_nat (length qs) \<and>
               tier_message r = tier (raw_score r)"
      by blast
  }
qed

theorem lateness_advisory_witness:
  "(\<exists>r. main_submitted (\<lambda>opts i. isinstance_list opts) 1801
          \<lparr>exam_started = Some True,
           selected_questions =
             Some [JObj [(''question'', JStr ''q''), (''options'', JArr [JStr ''A'', JStr ''B'']),
                         (''answer'', JStr ''A'')]],
           start_time = Some (Some 0), widgets = [0 \<mapsto> JStr ''B'']\<rparr> = Inr (Some r) \<and>
        is_late r \<and> length (results r) = 1 \<and> tier_message r = tier (raw_score r) \<and>
        grade False
          [JObj [(''question'', JStr ''q''), (''options'', JArr [JStr ''A'', JStr ''B'']),
                 (''answer'', JStr ''A'')]]
          [0 \<mapsto> JStr ''B''] = Inr (r\<lparr>is_late := False\<rparr>))"
proof -
  let ?qs = "[JObj [(''question'', JStr ''q''), (''options'', JArr [JStr ''A'', JStr ''B'']),
                    (''answer'', JStr ''A'')]]"
  let ?s = "\<lparr>exam_started = Some True, selected_questions = Some ?qs,
           start_time = Some (Some 0), widgets = [0 \<mapsto> JStr ''B'']\<rparr>"
  let ?radio = "\<lambda>(opts::json) (i::nat). isinstance_list opts"
  have st: "exam_started ?s = Some True" "start_time ?s = Some (Some 0)"
    "selected_questions ?s = Some ?qs" by simp_all
  note t = lateness_advisory[OF st, of ?radio 1801 0]
  have "?qs \<noteq> [] \<and> (\<forall>q\<in>set ?qs. answerable q) \<and> form_loop ?radio 0 ?qs = Inr () \<and>
        (1801::rat) - 0 > of_nat (TEST_DURATION_MINUTES * 60)"
    by (simp add: answerable_def isinstance_list_def TEST_DURATION_MINUTES_def)
  with t obtain r where r: "main_submitted ?radio 1801 ?s = Inr (Some r)" "is_late r"
    "length (results r) = length ?qs" "tier_message r = tier (raw_score r)"
    by blast
  from t r(1) have "grade False ?qs (widgets ?s) = Inr (r\<lparr>is_late := False\<rparr>)"
    by blast
  with r show ?thesis by auto
qed

text \<open>
  Claim C9. The outcome of grading is determined by the selected questions and the
  responses stored for their indices: two gradings that agree on these give the same
  outcome, and the same verdicts, raw score, percentage and closing message whatever the
  lateness flag is.
\<close>

theorem grading_deterministic:
  assumes "\<forall>i<length qs. w1 i = w2 i"
  shows "grade late qs w1 = grade late qs w2 \<and>
         map_sum id (\<lambda>r. (results r, raw_score r, total_questions r, final_score_pct r,
                          tier_message r)) (grade late1 qs w1) =
         map_sum id (\<lambda>r. (results r, raw_score r, total_questions r, final_score_pct r,
                          tier_message r)) (grade late2 qs w2)"
proof
  from assms show c: "grade late qs w1 = grade late qs w2" by (rule grade_cong)
  have "grade late1 qs w1 = map_sum id (\<lambda>r. r\<lparr>is_late := late1\<rparr>) (grade late2 qs w1)"
    by (rule grade_late_flag)
  also have "grade late2 qs w1 = grade late2 qs w2" using assms by (rule grade_cong)
  finally show "map_sum id (\<lambda>r. (results r, raw_score r, total_questions r, final_score_pct r,
                          tier_message r)) (grade late1 qs w1) =
         map_sum id (\<lambda>r. (results r, raw_score r, total_questions r, final_score_pct r,
                          tier_message r)) (grade late2 qs w2)"
    by (cases "grade late2 qs w2") simp_all
qed

theorem grading_deterministic_witness:
  "grade True [JObj [(''question'', JStr ''q''), (''answer'', JStr ''A'')]] [0 \<mapsto> JStr ''A'']
   = grade True [JObj [(''question'', JStr ''q''), (''answer'', JStr ''A'')]]
       [0 \<mapsto> JStr ''A'', 5 \<mapsto> JStr ''B'']"
proof -
  let ?qs = "[JObj [(''question'', JStr ''q''), (''answer'', JStr ''A'')]]"
  have "\<forall>i<length ?qs. [0 \<mapsto> JStr ''A''] i = [0 \<mapsto> JStr ''A'', 5 \<mapsto> JStr ''B''] i"
    by simp
  from grading_deterministic[OF this, of True] show ?thesis by blast
qed

text \<open>
  A call of \<^verbatim>\<open>start_test\<close> that returns has left the state alone, or has stored a
  non-empty selection of at most \<^verbatim>\<open>QUESTIONS_PER_TEST\<close> records, a start time and the flag.
\<close>

lemma start_test_Done:
  assumes "start_test src ds now s = Done (msgs, s')"
  shows "s' = s \<or>
         (\<exists>chosen. chosen \<noteq> [] \<and> length chosen \<le> QUESTIONS_PER_TEST \<and>
            s' = s\<lparr>selected_questions := Some chosen, start_time := Some (Some now),
                   exam_started := Some True\<rparr>)"
proof (cases "load_questions_from_file src")
  case (Inl e)
  with assms show ?thesis by (simp add: start_test_def)
next
  case (Inr p)
  obtain m bank where p: "p = (m, bank)" by (cases p)
  show ?thesis
  proof (cases "bank = []")
    case True
    with assms Inr p show ?thesis by (simp add: start_test_def)
  next
    case False
    let ?k = "min QUESTIONS_PER_TEST (length bank)"
    from assms Inr p False obtain chosen where
      c: "sample ds bank ?k = Done chosen" and
      s': "s' = s\<lparr>selected_questions := Some chosen, start_time := Some (Some now),
                   exam_started := Some True\<rparr>"
      by (auto simp: start_test_def split: outcome.splits)
    from sample_Done[OF c] have len: "length chosen = ?k" by auto
    from False have "0 < length bank" by simp
    then have "0 < ?k" by (simp add: QUESTIONS_PER_TEST_def)
    with len have "0 < length chosen" "length chosen \<le> QUESTIONS_PER_TEST"
      by simp_all
    then have "chosen \<noteq> []" "length chosen \<le> QUESTIONS_PER_TEST"
      by simp_all
    with s' show ?thesis by blast
  qed
qed

lemma reachable_started:
  "reachable s \<Longrightarrow> exam_started s = Some True \<Longrightarrow>
     (\<exists>t. start_time s = Some (Some t)) \<and>
     (\<exists>qs. selected_questions s = Some qs \<and> qs \<noteq> [] \<and> length qs \<le> QUESTIONS_PER_TEST)"
proof (induction rule: reachable.induct)
  case fresh
  then show ?case by (simp add: fresh_session_def)
next
  case (init s)
  from init.prems have st: "exam_started s = Some True"
    by (auto simp: initialize_session_def split: option.splits)
  from init.IH[OF st] show ?case
    by (auto simp: initialize_session_def)
next
  case (start s src ds now msgs s')
  from start_test_Done[OF start.hyps(2)] show ?case
  proof
    assume "s' = s"
    with start.IH start.prems show ?thesis by simp
  next
    assume "\<exists>chosen. chosen \<noteq> [] \<and> length chosen \<le> QUESTIONS_PER_TEST \<and>
            s' = s\<lparr>selected_questions := Some chosen, start_time := Some (Some now),
                   exam_started := Some True\<rparr>"
    then show ?thesis by auto
  qed
next
  case (click s w)
  then show ?case by simp
qed

text \<open>
  Claim C10. In every reachable state with \<^verbatim>\<open>exam_started\<close> set, \<^verbatim>\<open>start_time\<close> holds a time
  stamp and \<^verbatim>\<open>selected_questions\<close> a non-empty list of at most \<^verbatim>\<open>QUESTIONS_PER_TEST\<close> \<open>= 30\<close>
  records; so grading such a state, as \<^verbatim>\<open>main\<close> does on a submitted form, never raises
  \<^verbatim>\<open>ZeroDivisionError\<close>, whatever \<^verbatim>\<open>st.radio\<close> makes of the options.
\<close>

theorem session_invariant:
  assumes "reachable s" "exam_started s = Some True"
  shows "(\<exists>t. start_time s = Some (Some t)) \<and>
         (\<exists>qs. selected_questions s = Some qs \<and> qs \<noteq> [] \<and> length qs \<le> QUESTIONS_PER_TEST \<and>
            grade late qs (widgets s) \<noteq> Inl ZeroDivisionError) \<and>
         main_submitted st_radio now s \<noteq> Inl ZeroDivisionError \<and> QUESTIONS_PER_TEST = 30"
proof -
  from reachable_started[OF assms] obtain t qs where
    t: "start_time s = Some (Some t)" and
    qs: "selected_questions s = Some qs" "qs \<noteq> []" "length qs \<le> QUESTIONS_PER_TEST"
    by blast
  from qs(2) have z: "grade b qs (widgets s) \<noteq> Inl ZeroDivisionError" for b
    by (simp add: grade_ZeroDivisionError)
  have "main_submitted st_radio now s \<noteq> Inl ZeroDivisionError"
  proof (cases "form_loop st_radio 0 qs")
    case (Inl e)
    from form_loop_Inl[OF Inl] have "e \<noteq> ZeroDivisionError" by auto
    with Inl show ?thesis
      by (simp add: main_submitted_started[OF assms(2) t qs(1)])
  next
    case (Inr drawn)
    with z show ?thesis
      by (simp add: main_submitted_started[OF assms(2) t qs(1)] map_sum_Some_Inl)
  qed
  with t qs z show ?thesis by (simp add: QUESTIONS_PER_TEST_def)
qed

theorem session_invariant_witness:
  "reachable \<lparr>exam_started = Some True,
      selected_questions = Some [JStr ''q1'', JStr ''q2'', JStr ''q3''],
      start_time = Some (Some 17), widgets = Map.empty\<rparr> \<and>
   main_submitted (\<lambda>opts i. True) 20 \<lparr>exam_started = Some True,
      selected_questions = Some [JStr ''q1'', JStr ''q2'', JStr ''q3''],
      start_time = Some (Some 17), widgets = Map.empty\<rparr> \<noteq> Inl ZeroDivisionError"
proof -
  let ?s = "\<lparr>exam_started = Some True,
      selected_questions = Some [JStr ''q1'', JStr ''q2'', JStr ''q3''],
      start_time = Some (Some 17), widgets = Map.empty\<rparr>"
  have cnt: "min QUESTIONS_PER_TEST (length [JStr ''q1'', JStr ''q2'', JStr ''q3'']) = 3"
    by (simp add: QUESTIONS_PER_TEST_def)
  have smp: "sample [0, 1, 2] [JStr ''q1'', JStr ''q2'', JStr ''q3''] 3
          = Done [JStr ''q1'', JStr ''q2'', JStr ''q3'']"
    by code_simp
  have upd: "fresh_session\<lparr>selected_questions := Some [JStr ''q1'', JStr ''q2'', JStr ''q3''],
                start_time := Some (Some 17), exam_started := Some True\<rparr> = ?s"
    by (simp add: fresh_session_def)
  have "start_test (Loaded (JArr [JStr ''q1'', JStr ''q2'', JStr ''q3''])) [0, 1, 2] 17
          fresh_session = Done ([], ?s)"
    unfolding start_test_def
    by (simp only: load_questions_from_file.simps sum.case prod.case list.distinct
        if_False Let_def cnt smp outcome.case upd)
  with reachable.fresh have r: "reachable ?s" by (rule reachable.start)
  from session_invariant[OF r, of False "\<lambda>opts i. True" 20] r show ?thesis by simp
qed

end
